theory Spec2Isabelle
  imports Main "HOL-Library.Sublist"
begin

text \<open>
  A shallow embedding of the subprocess output pipeline of \<^verbatim>\<open>colossus_pkgcenter.cpp\<close>:
  the control-sequence stripper, the parser of the search listing, the three command
  runners and the search itself, followed by the properties proved of them.  The GTK
  presentation code around the pipeline is not modelled.
\<close>

section \<open>Bytes and C++ string primitives\<close>

text \<open>
  A \<^verbatim>\<open>std::string\<close> is a sequence of bytes; \<^typ>\<open>string\<close> (a list of 8-bit
  \<^typ>\<open>char\<close>) models it directly.  The byte constants the source names:
\<close>

definition ESC :: char where "ESC = CHR 0x1B"
definition BEL :: char where "BEL = CHR 0x07"
definition NUL :: char where "NUL = CHR 0x00"
definition NL :: char where "NL = CHR 0x0A"
definition TAB :: char where "TAB = CHR 0x09"

section \<open>Control-sequence stripper\<close>

text \<open>
  \<^verbatim>\<open>strip_ansi_and_osc\<close> walks the input with an index \<open>i\<close>.  In the model the
  list argument is the part of the input from \<open>i\<close> on, so \<open>i + 1 >= input.size()\<close>
  is "the tail is empty" and \<open>i = j\<close> is "continue on the suffix the inner loop
  returned".

  The inner loop of the CSI branch starts at \<open>j = i + 2\<close> and stops behind the first
  byte \<open>d\<close> with \<open>'@' <= d <= '~'\<close> (compared as \<^verbatim>\<open>unsigned char\<close>), or at the end.
\<close>

definition csi_final :: "char \<Rightarrow> bool" where
  "csi_final d = ((64::nat) \<le> of_char d \<and> of_char d \<le> (126::nat))"

fun skip_csi :: "string \<Rightarrow> string" where
  "skip_csi [] = []"
| "skip_csi (d # ds) = (if csi_final d then ds else skip_csi ds)"

text \<open>
  The inner loop of the OSC branch stops behind a BEL, or behind ESC followed by a
  backslash, or at the end.
\<close>

fun skip_osc :: "string \<Rightarrow> string" where
  "skip_osc [] = []"
| "skip_osc (d # ds) =
     (if d = BEL then ds
      else if d = ESC \<and> ds \<noteq> [] \<and> hd ds = CHR 0x5C then tl ds
      else skip_osc ds)"

lemma length_skip_csi: "length (skip_csi xs) \<le> length xs"
  by (induction xs) auto

lemma length_skip_osc: "length (skip_osc xs) \<le> length xs"
proof (induction xs)
  case Nil
  show ?case by simp
next
  case (Cons d ds)
  then show ?case by (cases ds) auto
qed

function strip_ansi_and_osc :: "string \<Rightarrow> string" where
  "strip_ansi_and_osc [] = []"
| "strip_ansi_and_osc (c # cs) =
     (if c = ESC then
        (if cs = [] then []
         else if hd cs = CHR ''['' then strip_ansi_and_osc (skip_csi (tl cs))
         else if hd cs = CHR '']'' then strip_ansi_and_osc (skip_osc (tl cs))
         else strip_ansi_and_osc cs)
      else c # strip_ansi_and_osc cs)"
  by pat_completeness auto
termination
proof (relation "measure length")
  show "wf (measure length)" by simp
next
  fix c :: char and cs :: string
  assume "cs \<noteq> []"
  then have "length (tl cs) < length cs" by (cases cs) auto
  with length_skip_csi [of "tl cs"]
  show "(skip_csi (tl cs), c # cs) \<in> measure length" by simp
next
  fix c :: char and cs :: string
  assume "cs \<noteq> []"
  then have "length (tl cs) < length cs" by (cases cs) auto
  with length_skip_osc [of "tl cs"]
  show "(skip_osc (tl cs), c # cs) \<in> measure length" by simp
qed simp_all

section \<open>Search-result parser\<close>

subsection \<open>The library calls the parser makes\<close>

text \<open>
  \<^verbatim>\<open>std::string::find(char)\<close>, \<^verbatim>\<open>find(const char*)\<close> and \<^verbatim>\<open>find_first_not_of\<close>
  return the first matching index, or \<^verbatim>\<open>npos\<close> (here \<^const>\<open>None\<close>).
\<close>

fun find_char :: "string \<Rightarrow> char \<Rightarrow> nat option" where
  "find_char [] ch = None"
| "find_char (c # cs) ch = (if c = ch then Some 0 else map_option Suc (find_char cs ch))"

fun find_str :: "string \<Rightarrow> string \<Rightarrow> nat option" where
  "find_str [] pat = (if pat = [] then Some 0 else None)"
| "find_str (c # cs) pat =
     (if prefix pat (c # cs) then Some 0 else map_option Suc (find_str cs pat))"

fun find_first_not_of :: "string \<Rightarrow> string \<Rightarrow> nat option" where
  "find_first_not_of [] chars = None"
| "find_first_not_of (c # cs) chars =
     (if c \<notin> set chars then Some 0 else map_option Suc (find_first_not_of cs chars))"

text \<open>
  \<^verbatim>\<open>substr(pos)\<close> and \<^verbatim>\<open>substr(0, n)\<close>.  \<^verbatim>\<open>substr\<close> throws when \<open>pos > size()\<close>;
  the parser only calls it with a position \<^verbatim>\<open>find\<close> returned, or that position plus
  one, which is at most the size.
\<close>

definition substr_from :: "string \<Rightarrow> nat \<Rightarrow> string" where
  "substr_from s pos = drop pos s"

definition substr_upto :: "string \<Rightarrow> nat \<Rightarrow> string" where
  "substr_upto s n = take n s"

text \<open>
  An input string stream is modelled by the characters it has not yet delivered.
  \<^verbatim>\<open>std::getline\<close> fails (\<^const>\<open>None\<close>) when nothing is left; otherwise it delivers
  the characters before the next newline and consumes that newline, if there is one.
\<close>

definition getline :: "string \<Rightarrow> (string \<times> string) option" where
  "getline iss =
     (if iss = [] then None
      else Some (takeWhile (\<lambda>c. c \<noteq> NL) iss, drop 1 (dropWhile (\<lambda>c. c \<noteq> NL) iss)))"

text \<open>
  \<^verbatim>\<open>header >> word\<close> skips white space of the classic locale (space and the bytes
  9 to 13), then reads up to the next white space; it fails when no character is read.
\<close>

definition isspace :: "char \<Rightarrow> bool" where
  "isspace c = (c = CHR '' '' \<or> ((9::nat) \<le> of_char c \<and> of_char c \<le> (13::nat)))"

definition extract_word :: "string \<Rightarrow> (string \<times> string) option" where
  "extract_word s =
     (let s' = dropWhile isspace s;
          word = takeWhile (\<lambda>c. \<not> isspace c) s'
      in if word = [] then None else Some (word, dropWhile (\<lambda>c. \<not> isspace c) s'))"

subsection \<open>Data model\<close>

record PackageInfo =
  repo :: string
  name :: string
  version :: string
  description :: string
  installed :: bool

text \<open>A default-constructed \<^verbatim>\<open>PackageInfo\<close>: empty strings, \<^verbatim>\<open>installed = false\<close>.\<close>

definition PackageInfo_default :: PackageInfo where
  "PackageInfo_default =
     \<lparr>repo = [], name = [], version = [], description = [], installed = False\<rparr>"

subsection \<open>The parsing loop\<close>

text \<open>The variables of \<^verbatim>\<open>parse_yay_search\<close> that live across iterations.\<close>

record parser_state =
  pkgs :: "PackageInfo list"
  current :: PackageInfo
  expecting_desc :: bool

definition parser_init :: parser_state where
  "parser_init = \<lparr>pkgs = [], current = PackageInfo_default, expecting_desc = False\<rparr>"

text \<open>
  The header branch of the loop body.  Every \<^verbatim>\<open>continue\<close> of the source leaves the state
  as it is.  \<^verbatim>\<open>rest\<close> is what \<^verbatim>\<open>std::getline(header, rest)\<close> reads behind the version
  (the empty string when the stream is exhausted).
\<close>

definition parse_header :: "parser_state \<Rightarrow> string \<Rightarrow> parser_state" where
  "parse_header st line =
     (case extract_word line of
        None \<Rightarrow> st
      | Some (repo_name, header1) \<Rightarrow>
          (case extract_word header1 of
             None \<Rightarrow> st
           | Some (ver, header2) \<Rightarrow>
               (case find_char repo_name (CHR ''/'') of
                  None \<Rightarrow> st
                | Some slash_pos \<Rightarrow>
                    let rest = (case getline header2 of None \<Rightarrow> [] | Some (r, _) \<Rightarrow> r);
                        cur = (current st)
                          \<lparr>repo := substr_upto repo_name slash_pos,
                           name := substr_from repo_name (slash_pos + 1),
                           version := ver,
                           description := [],
                           installed := (find_str rest ''[installed]'' \<noteq> None \<or>
                                         find_str rest ''(installed)'' \<noteq> None)\<rparr>
                    in st\<lparr>current := cur, expecting_desc := True\<rparr>)))"

text \<open>The loop body: blank line, description line (leading space or tab), header line.\<close>

definition parse_line :: "parser_state \<Rightarrow> string \<Rightarrow> parser_state" where
  "parse_line st line =
     (if line = [] then st\<lparr>expecting_desc := False\<rparr>
      else if hd line = CHR '' '' \<or> hd line = TAB then
        (if expecting_desc st then
           let cur = (current st)
                 \<lparr>description :=
                    (case find_first_not_of line [CHR '' '', TAB] of
                       Some pos \<Rightarrow> substr_from line pos
                     | None \<Rightarrow> line)\<rparr>
           in st\<lparr>current := cur, pkgs := pkgs st @ [cur], expecting_desc := False\<rparr>
         else st)
      else parse_header st line)"

text \<open>
  The lines on which the header branch goes through to its end: not blank, no leading
  space or tab, two words, and a slash in the first word.
\<close>

definition valid_header :: "string \<Rightarrow> bool" where
  "valid_header line =
     (line \<noteq> [] \<and> hd line \<noteq> CHR '' '' \<and> hd line \<noteq> TAB \<and>
      (case extract_word line of
         None \<Rightarrow> False
       | Some (repo_name, header1) \<Rightarrow>
           (case extract_word header1 of
              None \<Rightarrow> False
            | Some (ver, header2) \<Rightarrow> find_char repo_name (CHR ''/'') \<noteq> None)))"

text \<open>
  The other two kinds of non-blank line: a description line begins with a space or a tab;
  a rejected header is a line of the header branch on which one of its \<^verbatim>\<open>continue\<close>
  statements is reached, so that the line changes nothing.
\<close>

definition description_line :: "string \<Rightarrow> bool" where
  "description_line line = (line \<noteq> [] \<and> (hd line = CHR '' '' \<or> hd line = TAB))"

definition rejected_header :: "string \<Rightarrow> bool" where
  "rejected_header line =
     (line \<noteq> [] \<and> hd line \<noteq> CHR '' '' \<and> hd line \<noteq> TAB \<and> \<not> valid_header line)"

lemma getline_shorter: "getline iss = Some (line, iss') \<Longrightarrow> length iss' < length iss"
proof -
  assume g: "getline iss = Some (line, iss')"
  then have ne: "iss \<noteq> []" and r: "iss' = drop 1 (dropWhile (\<lambda>c. c \<noteq> NL) iss)"
    by (auto simp: getline_def split: if_splits)
  show ?thesis
  proof (cases "dropWhile (\<lambda>c. c \<noteq> NL) iss")
    case Nil
    with r ne show ?thesis by simp
  next
    case (Cons d ds)
    have "length (dropWhile (\<lambda>c. c \<noteq> NL) iss) \<le> length iss"
      by (rule length_dropWhile_le)
    with r Cons show ?thesis by simp
  qed
qed

function parse_loop :: "string \<Rightarrow> parser_state \<Rightarrow> parser_state" where
  "parse_loop iss st =
     (case getline iss of
        None \<Rightarrow> st
      | Some (line, iss') \<Rightarrow> parse_loop iss' (parse_line st line))"
  by pat_completeness auto
termination
  by (relation "measure (\<lambda>(iss, st). length iss)") (auto dest: getline_shorter)

declare parse_loop.simps [simp del]

definition parse_yay_search :: "string \<Rightarrow> PackageInfo list" where
  "parse_yay_search output = pkgs (parse_loop output parser_init)"

text \<open>The lines \<^verbatim>\<open>std::getline\<close> delivers from a text, in order.\<close>

function getlines :: "string \<Rightarrow> string list" where
  "getlines iss =
     (case getline iss of None \<Rightarrow> [] | Some (line, iss') \<Rightarrow> line # getlines iss')"
  by pat_completeness auto
termination
  by (relation "measure length") (auto dest: getline_shorter)

declare getlines.simps [simp del]

section \<open>Process runner\<close>

text \<open>
  The program reaches the operating system through \<^verbatim>\<open>popen\<close>, \<^verbatim>\<open>fgets\<close>,
  \<^verbatim>\<open>fwrite\<close> and \<^verbatim>\<open>pclose\<close>.  The model threads a trace of the calls that create,
  feed or reap a subprocess; a function of the program takes the trace so far and returns
  its result with the extended trace.  Reading a pipe, flushing it and dispatching pending
  GTK events add nothing to the trace.
\<close>

datatype event =
    Popen string string
  | Fwrite string
  | Pclose

text \<open>
  The operating system is a parameter: any deterministic environment, whose answers may
  depend on everything that happened before.  Each field is read at the trace that ends
  with the call in question: whether that \<^verbatim>\<open>popen\<close> returned a pipe, which bytes the
  child it started writes to its standard output before it exits (a child that ends, so
  the reading loops end), and what that \<^verbatim>\<open>pclose\<close> returned.
\<close>

record world =
  popen_ok :: "event list \<Rightarrow> bool"
  child_stdout :: "event list \<Rightarrow> string"
  pclose_status :: "event list \<Rightarrow> int"

text \<open>
  \<^verbatim>\<open>c_str()\<close> handed to a function that expects a C string: the bytes before the
  first NUL.
\<close>

definition c_str :: "string \<Rightarrow> string" where
  "c_str s = takeWhile (\<lambda>c. c \<noteq> NUL) s"

text \<open>
  \<^verbatim>\<open>fgets(buffer, n, pipe)\<close> on the bytes still in the pipe: \<^const>\<open>None\<close> at the end
  of the stream, otherwise at most \<open>n - 1\<close> bytes, ending behind the first newline.
\<close>

definition fgets :: "nat \<Rightarrow> string \<Rightarrow> (string \<times> string) option" where
  "fgets n pipe =
     (if pipe = [] then None
      else let m = min (n - 1) (Suc (length (takeWhile (\<lambda>c. c \<noteq> NL) pipe)))
           in Some (take m pipe, drop m pipe))"

lemma fgets_shorter: "fgets 4096 pipe = Some (buffer, pipe') \<Longrightarrow> length pipe' < length pipe"
  by (auto simp: fgets_def Let_def split: if_splits)

text \<open>The reading loop of \<^verbatim>\<open>run_command\<close>; \<^verbatim>\<open>result += buffer\<close> appends a C string.\<close>

function read_loop :: "string \<Rightarrow> string \<Rightarrow> string" where
  "read_loop pipe result =
     (case fgets 4096 pipe of
        None \<Rightarrow> result
      | Some (buffer, pipe') \<Rightarrow> read_loop pipe' (result @ c_str buffer))"
  by pat_completeness auto
termination
  by (relation "measure (\<lambda>(pipe, result). length pipe)") (auto dest: fgets_shorter)

declare read_loop.simps [simp del]

definition run_command :: "world \<Rightarrow> string \<Rightarrow> event list \<Rightarrow> string \<times> event list" where
  "run_command w cmd tr =
     (let tr1 = tr @ [Popen (c_str cmd) ''r'']
      in if \<not> popen_ok w tr1 then ([], tr1)
         else (read_loop (child_stdout w tr1) [], tr1 @ [Pclose]))"

text \<open>
  \<^verbatim>\<open>run_command_status\<close> reads the pipe to its end without keeping anything, then
  compares the value of \<^verbatim>\<open>pclose\<close> with 0.
\<close>

definition run_command_status :: "world \<Rightarrow> string \<Rightarrow> event list \<Rightarrow> bool \<times> event list" where
  "run_command_status w cmd tr =
     (let tr1 = tr @ [Popen (c_str cmd) ''r'']
      in if \<not> popen_ok w tr1 then (False, tr1)
         else let tr2 = tr1 @ [Pclose] in (pclose_status w tr2 = 0, tr2))"

definition run_sudo_with_password ::
    "world \<Rightarrow> string \<Rightarrow> string \<Rightarrow> event list \<Rightarrow> bool \<times> event list" where
  "run_sudo_with_password w password cmd tr =
     (if password = [] then (False, tr)
      else let tr1 = tr @ [Popen (c_str cmd) ''w'']
           in if \<not> popen_ok w tr1 then (False, tr1)
              else let pwline = password @ [NL];
                       tr2 = tr1 @ [Fwrite pwline, Pclose]
                   in (pclose_status w tr2 = 0, tr2))"

definition is_package_installed :: "world \<Rightarrow> string \<Rightarrow> event list \<Rightarrow> bool \<times> event list" where
  "is_package_installed w nm tr =
     run_command_status w (''pacman -Qi '' @ nm @ '' >/dev/null 2>&1'') tr"

section \<open>Search pipeline\<close>

text \<open>
  The loop of \<^verbatim>\<open>perform_search\<close> over the parsed records: one call of
  \<^verbatim>\<open>is_package_installed\<close> per record, in order, whose answer is stored in the record.
\<close>

fun resolve_installed ::
    "world \<Rightarrow> PackageInfo list \<Rightarrow> event list \<Rightarrow> PackageInfo list \<times> event list" where
  "resolve_installed w [] tr = ([], tr)"
| "resolve_installed w (pkg # ps) tr =
     (let (b, tr1) = is_package_installed w (name pkg) tr;
          pkg' = (if b then pkg\<lparr>installed := True\<rparr> else pkg\<lparr>installed := False\<rparr>);
          (ps', tr2) = resolve_installed w ps tr1
      in (pkg' # ps', tr2))"

text \<open>
  \<^verbatim>\<open>perform_search\<close> returns nothing; what it computes is the sequence of records it
  hands to \<^verbatim>\<open>populate_results\<close> (none after \<^verbatim>\<open>clear_results\<close> in the branch of the
  empty query).  The model returns that sequence, and the trace.
\<close>

definition perform_search :: "world \<Rightarrow> string \<Rightarrow> event list \<Rightarrow> PackageInfo list \<times> event list" where
  "perform_search w query tr =
     (if query = [] then ([], tr)
      else let cmd = ''yay -Ss '' @ query;
               (raw_output, tr1) = run_command w cmd tr;
               output = strip_ansi_and_osc raw_output;
               pkgs0 = parse_yay_search output
           in resolve_installed w pkgs0 tr1)"

subsection \<open>Two concrete environments\<close>

text \<open>An environment in which no subprocess can be created.\<close>

definition world_spawn_fails :: world where
  "world_spawn_fails =
     \<lparr>popen_ok = (\<lambda>tr. False), child_stdout = (\<lambda>tr. []), pclose_status = (\<lambda>tr. 0)\<rparr>"

text \<open>
  An environment in which every command starts and exits with status 1 (so the local
  database knows no package), and the search for \<^verbatim>\<open>bar\<close> prints one entry, marked as
  installed in colour; every other command prints nothing.
\<close>

definition sample_yay_output :: string where
  "sample_yay_output =
     ''extra/bar 2.0-1 '' @ [ESC] @ ''[1m[installed]'' @ [ESC] @ ''[0m'' @ [NL] @
     ''    Another package'' @ [NL]"

definition world_sample :: world where
  "world_sample =
     \<lparr>popen_ok = (\<lambda>tr. True),
      child_stdout = (\<lambda>tr.
        if tr \<noteq> [] \<and> last tr = Popen ''yay -Ss bar'' ''r'' then sample_yay_output else []),
      pclose_status = (\<lambda>tr. 1)\<rparr>"

section \<open>Properties of the stripper\<close>

lemma strip_output_free_of_ESC: "ESC \<notin> set (strip_ansi_and_osc x)"
  by (induction x rule: strip_ansi_and_osc.induct) auto

lemma strip_fixes_ESC_free: "ESC \<notin> set x \<Longrightarrow> strip_ansi_and_osc x = x"
  by (induction x) auto

text \<open>
  Claim C9.  For every input text the output of \<^const>\<open>strip_ansi_and_osc\<close> contains no
  ESC byte (0x1B): the only branch that copies a byte to the output is the one taken when
  the byte is not ESC.
\<close>

theorem strip_ansi_and_osc_no_ESC: "CHR 0x1B \<notin> set (strip_ansi_and_osc x)"
  using strip_output_free_of_ESC [of x] by (simp add: ESC_def)

text \<open>
  Claim C3.  The stripper is idempotent: stripping a stripped text changes nothing.
\<close>

theorem strip_ansi_and_osc_idempotent:
  "strip_ansi_and_osc (strip_ansi_and_osc x) = strip_ansi_and_osc x"
  by (rule strip_fixes_ESC_free) (rule strip_output_free_of_ESC)

section \<open>Properties of the parser\<close>

subsection \<open>The loop is a left fold of the loop body over the lines\<close>

lemma parse_loop_foldl: "parse_loop iss st = foldl parse_line st (getlines iss)"
proof (induction iss st rule: parse_loop.induct)
  case (1 iss st)
  show ?case
  proof (cases "getline iss")
    case None
    then show ?thesis by (simp add: parse_loop.simps [of iss] getlines.simps [of iss])
  next
    case (Some p)
    obtain line iss' where p: "p = (line, iss')" by (cases p)
    with Some 1 show ?thesis
      by (simp add: parse_loop.simps [of iss] getlines.simps [of iss])
  qed
qed

lemma parse_yay_search_foldl:
  "parse_yay_search output = pkgs (foldl parse_line parser_init (getlines output))"
  by (simp add: parse_yay_search_def parse_loop_foldl)

lemma takeWhile_upto_NL: "NL \<notin> set l \<Longrightarrow> takeWhile (\<lambda>c. c \<noteq> NL) (l @ NL # post) = l"
  by (induction l) auto

lemma dropWhile_upto_NL: "NL \<notin> set l \<Longrightarrow> dropWhile (\<lambda>c. c \<noteq> NL) (l @ NL # post) = NL # post"
  by (induction l) auto

lemma getline_line: "NL \<notin> set l \<Longrightarrow> getline (l @ NL # post) = Some (l, post)"
  by (simp add: getline_def takeWhile_upto_NL dropWhile_upto_NL)

lemma getlines_Nil: "getlines [] = []"
  by (simp add: getlines.simps [of "[]"] getline_def)

lemma getlines_line: "NL \<notin> set l \<Longrightarrow> getlines (l @ NL # post) = l # getlines post"
  by (subst getlines.simps) (simp add: getline_line)

lemma getlines_last_line: "NL \<notin> set l \<Longrightarrow> l \<noteq> [] \<Longrightarrow> getlines l = [l]"
proof -
  assume nl: "NL \<notin> set l" and ne: "l \<noteq> []"
  from nl have tw: "takeWhile (\<lambda>c. c \<noteq> NL) l = l" and dw: "dropWhile (\<lambda>c. c \<noteq> NL) l = []"
    by (induction l) auto
  from ne have "getline l = Some (l, [])" unfolding getline_def tw dw by simp
  then show ?thesis by (simp add: getlines.simps [of l] getlines_Nil)
qed

lemma getlines_append:
  "pre = [] \<or> last pre = NL \<Longrightarrow> getlines (pre @ s) = getlines pre @ getlines s"
proof (induction pre rule: length_induct)
  case (1 pre)
  show ?case
  proof (cases "pre = []")
    case True
    then show ?thesis by (simp add: getlines_Nil)
  next
    case False
    with 1 have lst: "last pre = NL" by simp
    define l where "l = takeWhile (\<lambda>c. c \<noteq> NL) pre"
    define rest where "rest = dropWhile (\<lambda>c. c \<noteq> NL) pre"
    have split: "pre = l @ rest" by (simp add: l_def rest_def)
    have "NL \<in> set pre" using False lst last_in_set by metis
    then have "rest \<noteq> []" by (auto simp: rest_def)
    then obtain d pre' where r: "rest = d # pre'" by (cases rest) auto
    have "d = NL" using r hd_dropWhile [of "\<lambda>c. c \<noteq> NL" pre] by (simp add: rest_def)
    with split r have pre: "pre = l @ NL # pre'" by simp
    have nl: "NL \<notin> set l" unfolding l_def by (auto dest: set_takeWhileD)
    have shorter: "length pre' < length pre" using pre by simp
    have last': "pre' = [] \<or> last pre' = NL" using lst pre by (auto split: if_splits)
    have "getlines (pre @ s) = l # getlines (pre' @ s)"
      using getlines_line [OF nl, of "pre' @ s"] pre by simp
    also have "getlines (pre' @ s) = getlines pre' @ getlines s"
      using 1 shorter last' by blast
    finally show ?thesis using getlines_line [OF nl, of pre'] pre by simp
  qed
qed


lemma find_char_Some:
  "find_char s ch = Some pos \<Longrightarrow> pos < length s \<and> s ! pos = ch \<and> ch \<notin> set (take pos s)"
proof (induction s arbitrary: pos)
  case Nil
  then show ?case by simp
next
  case (Cons c cs)
  show ?case
  proof (cases "c = ch")
    case True
    with Cons.prems show ?thesis by simp
  next
    case False
    with Cons.prems obtain p where p: "find_char cs ch = Some p" and pos: "pos = Suc p"
      by auto
    from Cons.IH [OF p] False pos show ?thesis by simp
  qed
qed

lemma find_char_None: "find_char s ch = None \<longleftrightarrow> ch \<notin> set s"
  by (induction s) auto

lemma find_first_not_of_None:
  "find_first_not_of s chars = None \<longleftrightarrow> set s \<subseteq> set chars"
  by (induction s) auto

lemma find_first_not_of_Some:
  "find_first_not_of s chars = Some pos \<Longrightarrow> drop pos s = dropWhile (\<lambda>c. c \<in> set chars) s"
proof (induction s arbitrary: pos)
  case Nil
  then show ?case by simp
next
  case (Cons c cs)
  show ?case
  proof (cases "c \<in> set chars")
    case False
    with Cons.prems show ?thesis by simp
  next
    case True
    with Cons.prems obtain p where p: "find_first_not_of cs chars = Some p" and pos: "pos = Suc p"
      by auto
    from Cons.IH [OF p] True pos show ?thesis by simp
  qed
qed

lemma parse_line_pkgs:
  "pkgs (parse_line st line) =
     (if line \<noteq> [] \<and> (hd line = CHR '' '' \<or> hd line = TAB) \<and> expecting_desc st
      then pkgs st @ [current (parse_line st line)] else pkgs st)"
  by (simp add: parse_line_def parse_header_def Let_def split: option.splits prod.splits)

subsection \<open>Header lines\<close>

lemma PackageInfo_all_fields:
  "(c::PackageInfo)\<lparr>repo := a, name := b, version := v, description := d, installed := i\<rparr> =
   \<lparr>repo = a, name = b, version = v, description = d, installed = i\<rparr>"
  by (cases c) simp

lemma parse_line_valid_header:
  assumes "valid_header h"
  shows "\<exists>c. \<forall>st. parse_line st h = st\<lparr>current := c, expecting_desc := True\<rparr>"
proof -
  from assms obtain repo_name header1 ver header2 pos
    where w1: "extract_word h = Some (repo_name, header1)"
      and w2: "extract_word header1 = Some (ver, header2)"
      and sl: "find_char repo_name (CHR ''/'') = Some pos"
      and ne: "h \<noteq> []" and b: "hd h \<noteq> CHR '' ''" "hd h \<noteq> TAB"
    by (auto simp: valid_header_def split: option.splits)
  show ?thesis
    unfolding parse_line_def parse_header_def
    by (rule exI [where x = "\<lparr>repo = substr_upto repo_name pos,
          name = substr_from repo_name (pos + 1), version = ver, description = [],
          installed = (find_str (case getline header2 of None \<Rightarrow> [] | Some (r, _) \<Rightarrow> r) ''[installed]'' \<noteq> None \<or>
                       find_str (case getline header2 of None \<Rightarrow> [] | Some (r, _) \<Rightarrow> r) ''(installed)'' \<noteq> None)\<rparr>"])
       (simp add: w1 w2 sl ne b Let_def PackageInfo_all_fields)
qed

lemma parse_line_header_pkgs:
  "h \<noteq> [] \<Longrightarrow> hd h \<noteq> CHR '' '' \<Longrightarrow> hd h \<noteq> TAB \<Longrightarrow> pkgs (parse_line st h) = pkgs st"
  by (simp add: parse_line_pkgs)

lemma parse_line_header_cases:
  "h \<noteq> [] \<Longrightarrow> hd h \<noteq> CHR '' '' \<Longrightarrow> hd h \<noteq> TAB \<Longrightarrow>
   parse_line st h = st \<or> (\<exists>c. parse_line st h = st\<lparr>current := c, expecting_desc := True\<rparr>)"
  by (auto simp: parse_line_def parse_header_def Let_def split: option.splits prod.splits)

lemma two_headers_step:
  assumes h1: "h1 \<noteq> []" "hd h1 \<noteq> CHR '' ''" "hd h1 \<noteq> TAB" and h2: "valid_header h2"
  shows "parse_line (parse_line st h1) h2 = parse_line st h2"
proof -
  from parse_line_valid_header [OF h2] obtain c
    where c: "\<And>s. parse_line s h2 = s\<lparr>current := c, expecting_desc := True\<rparr>" by blast
  from parse_line_header_cases [OF h1, of st] show ?thesis
    by (auto simp: c)
qed

text \<open>
  Claim C4.  A record is appended to the output only by a loop iteration that consumes a
  description line (leading space or tab) while \<open>expecting_desc\<close> is set.  With \<open>pre\<close>
  a text that ends at a line boundary: a valid header line at the end of the input, with or
  without its newline, adds no record; and of two consecutive valid header lines the first
  adds none, the result being that of the input without it.
\<close>

theorem record_emitted_only_with_description:
  assumes pre: "pre = [] \<or> last pre = NL"
    and h1: "valid_header h1" "NL \<notin> set h1"
    and h2: "valid_header h2" "NL \<notin> set h2"
  shows "pkgs (parse_line st line) =
           (if line \<noteq> [] \<and> (hd line = CHR '' '' \<or> hd line = TAB) \<and> expecting_desc st
            then pkgs st @ [current (parse_line st line)] else pkgs st) \<and>
         parse_yay_search (pre @ h1) = parse_yay_search pre \<and>
         parse_yay_search (pre @ h1 @ [NL]) = parse_yay_search pre \<and>
         parse_yay_search (pre @ h1 @ [NL] @ h2 @ [NL] @ post) =
           parse_yay_search (pre @ h2 @ [NL] @ post)"
proof -
  from h1 have n1: "h1 \<noteq> []" "hd h1 \<noteq> CHR '' ''" "hd h1 \<noteq> TAB"
    by (simp_all add: valid_header_def)
  have step: "pkgs (parse_line st line) =
           (if line \<noteq> [] \<and> (hd line = CHR '' '' \<or> hd line = TAB) \<and> expecting_desc st
            then pkgs st @ [current (parse_line st line)] else pkgs st)"
    by (rule parse_line_pkgs)
  have l1: "getlines (pre @ h1) = getlines pre @ [h1]"
    using getlines_append [OF pre, of h1] getlines_last_line [OF h1(2) n1(1)] by simp
  have l2: "getlines (pre @ h1 @ [NL]) = getlines pre @ [h1]"
    using getlines_append [OF pre, of "h1 @ [NL]"] getlines_line [OF h1(2), of "[]"]
    by (simp add: getlines_Nil)
  have l3: "getlines (pre @ h1 @ [NL] @ h2 @ [NL] @ post) = getlines pre @ h1 # h2 # getlines post"
    using getlines_append [OF pre, of "h1 @ [NL] @ h2 @ [NL] @ post"]
      getlines_line [OF h1(2), of "h2 @ [NL] @ post"] getlines_line [OF h2(2), of post]
    by simp
  have l4: "getlines (pre @ h2 @ [NL] @ post) = getlines pre @ h2 # getlines post"
    using getlines_append [OF pre, of "h2 @ [NL] @ post"] getlines_line [OF h2(2), of post]
    by simp
  have e1: "parse_yay_search (pre @ h1) = parse_yay_search pre"
    unfolding parse_yay_search_foldl l1 by (simp add: parse_line_header_pkgs [OF n1])
  have e2: "parse_yay_search (pre @ h1 @ [NL]) = parse_yay_search pre"
    unfolding parse_yay_search_foldl l2 by (simp add: parse_line_header_pkgs [OF n1])
  have e3: "parse_yay_search (pre @ h1 @ [NL] @ h2 @ [NL] @ post) =
           parse_yay_search (pre @ h2 @ [NL] @ post)"
    unfolding parse_yay_search_foldl l3 l4 by (simp add: two_headers_step [OF n1 h2(1)])
  from step e1 e2 e3 show ?thesis by blast
qed

lemma sample_headers:
  "valid_header ''core/foo 1.0-1''" "NL \<notin> set ''core/foo 1.0-1''"
  "valid_header ''extra/bar 2.0-1 [installed]''" "NL \<notin> set ''extra/bar 2.0-1 [installed]''"
  by code_simp+

lemma sample_prefix: "last ''x/y 3\<newline> d\<newline>'' = NL"
  by code_simp

theorem record_emitted_only_with_description_witness:
  "valid_header ''core/foo 1.0-1'' \<and> valid_header ''extra/bar 2.0-1 [installed]'' \<and>
   parse_yay_search (''x/y 3\<newline> d\<newline>'' @ ''core/foo 1.0-1'') =
     parse_yay_search ''x/y 3\<newline> d\<newline>'' \<and>
   parse_yay_search (''x/y 3\<newline> d\<newline>'' @ ''core/foo 1.0-1'' @ [NL] @
       ''extra/bar 2.0-1 [installed]'' @ [NL] @ ''    Another package'') =
     parse_yay_search (''x/y 3\<newline> d\<newline>'' @
       ''extra/bar 2.0-1 [installed]'' @ [NL] @ ''    Another package'')"
  using record_emitted_only_with_description
    [OF disjI2 [OF sample_prefix] sample_headers, of parser_init "[]" "''    Another package''"]
    sample_headers
  by blast

subsection \<open>Description lines\<close>

lemma blank_run_dropped:
  "dropWhile (\<lambda>c. c \<in> set [CHR '' '', TAB]) line = dropWhile (\<lambda>c. c = CHR '' '' \<or> c = TAB) line"
  by (rule arg_cong [where f = "\<lambda>P. dropWhile P line"]) auto

text \<open>
  Claim C7, amended.  A description line consumed while \<open>expecting_desc\<close> is set emits
  the candidate with, as description, the line without its leading run of spaces and tabs
  when the line holds some other character, and the whole line, unchanged, when it consists
  of spaces and tabs only (the \<^verbatim>\<open>else\<close> branch behind \<^verbatim>\<open>find_first_not_of\<close>).
\<close>

theorem description_is_trimmed_line_unless_all_blank:
  assumes "expecting_desc st" and "line \<noteq> []" and "hd line = CHR '' '' \<or> hd line = TAB"
  shows "pkgs (parse_line st line) =
           pkgs st @ [(current st)\<lparr>description :=
              (if set line \<subseteq> {CHR '' '', TAB} then line
               else dropWhile (\<lambda>c. c = CHR '' '' \<or> c = TAB) line)\<rparr>]"
proof (cases "find_first_not_of line [CHR '' '', TAB]")
  case None
  then have "set line \<subseteq> {CHR '' '', TAB}" by (simp add: find_first_not_of_None)
  with None assms show ?thesis by (simp add: parse_line_def Let_def)
next
  case (Some pos)
  then have "\<not> set line \<subseteq> {CHR '' '', TAB}"
    using find_first_not_of_None [of line "[CHR '' '', TAB]"] by simp
  moreover have "substr_from line pos = dropWhile (\<lambda>c. c = CHR '' '' \<or> c = TAB) line"
    using find_first_not_of_Some [OF Some] by (simp add: substr_from_def blank_run_dropped)
  ultimately show ?thesis using Some assms by (simp add: parse_line_def Let_def)
qed

lemma sample_state:
  "parse_line parser_init ''a/b 1'' =
     \<lparr>pkgs = [], current = \<lparr>repo = ''a'', name = ''b'', version = ''1'', description = [],
        installed = False\<rparr>, expecting_desc = True\<rparr>"
  by code_simp

theorem description_is_trimmed_line_unless_all_blank_witness:
  "expecting_desc (parse_line parser_init ''a/b 1'') \<and>
   pkgs (parse_line (parse_line parser_init ''a/b 1'') ''  A b '') =
     [\<lparr>repo = ''a'', name = ''b'', version = ''1'', description = ''A b '', installed = False\<rparr>] \<and>
   pkgs (parse_line (parse_line parser_init ''a/b 1'') [CHR '' '', TAB]) =
     [\<lparr>repo = ''a'', name = ''b'', version = ''1'', description = [CHR '' '', TAB],
       installed = False\<rparr>]"
  using description_is_trimmed_line_unless_all_blank
          [of "parse_line parser_init ''a/b 1''" "''  A b ''"]
        description_is_trimmed_line_unless_all_blank
          [of "parse_line parser_init ''a/b 1''" "[CHR '' '', TAB]"]
  by (simp add: sample_state TAB_def)

text \<open>
  Claim C7 as stated fails: the description line of two spaces yields the description of
  two spaces, not the empty one.
\<close>

theorem all_blank_description_kept_counterexample:
  "parse_yay_search ''a/b 1\<newline>  \<newline>'' =
     [\<lparr>repo = ''a'', name = ''b'', version = ''1'', description = ''  '', installed = False\<rparr>]"
  by code_simp

subsection \<open>Repository and name of an emitted record\<close>

lemma parse_line_rejected_header: "rejected_header l \<Longrightarrow> parse_line st l = st"
  by (auto simp: rejected_header_def valid_header_def parse_line_def parse_header_def
           split: option.splits)

lemma parse_line_description:
  assumes "description_line d" and "expecting_desc st"
  shows "parse_line st d =
           st\<lparr>current := (current st)\<lparr>description :=
                  (if set d \<subseteq> {CHR '' '', TAB} then d
                   else dropWhile (\<lambda>c. c = CHR '' '' \<or> c = TAB) d)\<rparr>,
              pkgs := pkgs st @ [(current st)\<lparr>description :=
                  (if set d \<subseteq> {CHR '' '', TAB} then d
                   else dropWhile (\<lambda>c. c = CHR '' '' \<or> c = TAB) d)\<rparr>],
              expecting_desc := False\<rparr>"
proof (cases "find_first_not_of d [CHR '' '', TAB]")
  case None
  then have "set d \<subseteq> {CHR '' '', TAB}" by (simp add: find_first_not_of_None)
  with None assms show ?thesis by (simp add: parse_line_def description_line_def Let_def)
next
  case (Some pos)
  then have "\<not> set d \<subseteq> {CHR '' '', TAB}"
    using find_first_not_of_None [of d "[CHR '' '', TAB]"] by simp
  moreover have "substr_from d pos = dropWhile (\<lambda>c. c = CHR '' '' \<or> c = TAB) d"
    using find_first_not_of_Some [OF Some] by (simp add: substr_from_def blank_run_dropped)
  ultimately show ?thesis using Some assms
    by (simp add: parse_line_def description_line_def Let_def)
qed

lemma parse_line_valid_header_fields:
  assumes "valid_header h"
    and w1: "extract_word h = Some (repo_name, header1)"
    and w2: "extract_word header1 = Some (ver, header2)"
    and sl: "find_char repo_name (CHR ''/'') = Some pos"
  shows "repo (current (parse_line st h)) = take pos repo_name \<and>
         name (current (parse_line st h)) = drop (Suc pos) repo_name \<and>
         version (current (parse_line st h)) = ver"
proof -
  from assms(1) have "h \<noteq> []" "hd h \<noteq> CHR '' ''" "hd h \<noteq> TAB"
    by (simp_all add: valid_header_def)
  then show ?thesis
    by (simp add: parse_line_def parse_header_def w1 w2 sl Let_def substr_upto_def substr_from_def)
qed

lemma line_kinds:
  "l = [] \<or> description_line l \<or> valid_header l \<or> rejected_header l"
  by (auto simp: description_line_def rejected_header_def)

lemma expecting_desc_provenance:
  "expecting_desc (foldl parse_line parser_init ls) \<Longrightarrow>
   \<exists>before h mid. ls = before @ h # mid \<and> valid_header h \<and> (\<forall>l\<in>set mid. rejected_header l) \<and>
     (\<forall>st. current (parse_line st h) = current (foldl parse_line parser_init ls))"
proof (induction ls rule: rev_induct)
  case Nil
  then show ?case by (simp add: parser_init_def)
next
  case (snoc l ls)
  let ?st = "foldl parse_line parser_init ls"
  from snoc.prems have ex: "expecting_desc (parse_line ?st l)" by simp
  from line_kinds [of l] show ?case
  proof (elim disjE)
    assume "l = []"
    with ex show ?thesis by (simp add: parse_line_def)
  next
    assume d: "description_line l"
    show ?thesis
    proof (cases "expecting_desc ?st")
      case True
      from parse_line_description [OF d True] ex show ?thesis by simp
    next
      case False
      with d ex show ?thesis by (simp add: parse_line_def description_line_def)
    qed
  next
    assume v: "valid_header l"
    from parse_line_valid_header [OF v] obtain c
      where c: "\<And>s. parse_line s l = s\<lparr>current := c, expecting_desc := True\<rparr>" by blast
    have a: "ls @ [l] = ls @ l # []" by simp
    have e: "\<forall>x\<in>set []. rejected_header x" by simp
    have n: "\<forall>st. current (parse_line st l) = current (foldl parse_line parser_init (ls @ [l]))"
      by (simp add: c)
    show ?thesis by (intro exI conjI) (rule a, rule v, rule e, rule n)
  next
    assume r: "rejected_header l"
    then have same: "parse_line ?st l = ?st" by (rule parse_line_rejected_header)
    with ex have "expecting_desc ?st" by simp
    from snoc.IH [OF this] obtain before h mid
      where ls: "ls = before @ h # mid" and v: "valid_header h"
        and m: "\<forall>l\<in>set mid. rejected_header l"
        and c: "\<forall>st. current (parse_line st h) = current ?st" by blast
    have a: "ls @ [l] = before @ h # (mid @ [l])" using ls by simp
    have e: "\<forall>x\<in>set (mid @ [l]). rejected_header x" using m r by simp
    have n: "\<forall>st. current (parse_line st h) = current (foldl parse_line parser_init (ls @ [l]))"
      using c same by simp
    show ?thesis by (intro exI conjI) (rule a, rule v, rule e, rule n)
  qed
qed

lemma emitted_record_provenance:
  "k < length (pkgs (foldl parse_line parser_init ls)) \<Longrightarrow>
   \<exists>before h mid d after.
     ls = before @ h # mid @ d # after \<and> valid_header h \<and> (\<forall>l\<in>set mid. rejected_header l) \<and>
     description_line d \<and>
     pkgs (foldl parse_line parser_init (before @ h # mid)) =
       take k (pkgs (foldl parse_line parser_init ls)) \<and>
     (\<forall>st. pkgs (foldl parse_line parser_init ls) ! k =
        (current (parse_line st h))\<lparr>description :=
           (if set d \<subseteq> {CHR '' '', TAB} then d
            else dropWhile (\<lambda>c. c = CHR '' '' \<or> c = TAB) d)\<rparr>)"
proof (induction ls arbitrary: k rule: rev_induct)
  case Nil
  then show ?case by (simp add: parser_init_def)
next
  case (snoc l ls)
  let ?st = "foldl parse_line parser_init ls"
  let ?D = "\<lambda>d. if set d \<subseteq> {CHR '' '', TAB} then d
            else dropWhile (\<lambda>c. c = CHR '' '' \<or> c = TAB) d"
  have f: "foldl parse_line parser_init (ls @ [l]) = parse_line ?st l" by simp
  show ?case
  proof (cases "k < length (pkgs ?st)")
    case True
    from snoc.IH [OF True] obtain before h mid d after
      where ls: "ls = before @ h # mid @ d # after" and v: "valid_header h"
        and m: "\<forall>l\<in>set mid. rejected_header l" and d: "description_line d"
        and t: "pkgs (foldl parse_line parser_init (before @ h # mid)) = take k (pkgs ?st)"
        and c: "\<forall>st. pkgs ?st ! k = (current (parse_line st h))\<lparr>description := ?D d\<rparr>"
      by blast
    have ext: "pkgs (parse_line ?st l) = pkgs ?st \<or>
               pkgs (parse_line ?st l) = pkgs ?st @ [current (parse_line ?st l)]"
      by (simp add: parse_line_pkgs)
    from ext True have t': "take k (pkgs (parse_line ?st l)) = take k (pkgs ?st)"
      by auto
    from ext True have n': "pkgs (parse_line ?st l) ! k = pkgs ?st ! k"
      by (auto simp: nth_append)
    have a: "ls @ [l] = before @ h # mid @ d # (after @ [l])" using ls by simp
    have t2: "pkgs (foldl parse_line parser_init (before @ h # mid)) =
               take k (pkgs (foldl parse_line parser_init (ls @ [l])))"
      unfolding f t' by (rule t)
    have c2: "\<forall>st. pkgs (foldl parse_line parser_init (ls @ [l])) ! k =
               (current (parse_line st h))\<lparr>description := ?D d\<rparr>"
      unfolding f n' by (rule c)
    show ?thesis by (intro exI conjI) (rule a, rule v, rule m, rule d, rule t2, rule c2)
  next
    case False
    with snoc.prems have grow: "pkgs (parse_line ?st l) \<noteq> pkgs ?st" by auto
    then have dl: "description_line l" and ex: "expecting_desc ?st"
      using parse_line_pkgs [of ?st l] by (auto simp: description_line_def split: if_splits)
    from parse_line_description [OF dl ex]
    have p: "pkgs (parse_line ?st l) = pkgs ?st @ [(current ?st)\<lparr>description := ?D l\<rparr>]"
      by simp
    with False snoc.prems have k: "k = length (pkgs ?st)" by simp
    from expecting_desc_provenance [OF ex] obtain before h mid
      where ls: "ls = before @ h # mid" and v: "valid_header h"
        and m: "\<forall>l\<in>set mid. rejected_header l"
        and c: "\<forall>st. current (parse_line st h) = current ?st" by blast
    have a: "ls @ [l] = before @ h # mid @ l # []" using ls by simp
    have t: "pkgs (foldl parse_line parser_init (before @ h # mid)) =
               take k (pkgs (foldl parse_line parser_init (ls @ [l])))"
    proof -
      have "pkgs ?st = take k (pkgs (foldl parse_line parser_init (ls @ [l])))"
        using p k by simp
      then show ?thesis unfolding ls .
    qed
    have n: "\<forall>st. pkgs (foldl parse_line parser_init (ls @ [l])) ! k =
               (current (parse_line st h))\<lparr>description := ?D l\<rparr>"
      unfolding f p k using c by simp
    show ?thesis by (intro exI conjI) (rule a, rule v, rule m, rule dl, rule t, rule n)
  qed
qed

lemma split_at_first_slash:
  assumes sl: "find_char w (CHR ''/'') = Some pos"
  shows "w = take pos w @ CHR ''/'' # drop (Suc pos) w \<and>
         CHR ''/'' \<notin> set (take pos w) \<and>
         (take pos w \<noteq> [] \<longleftrightarrow> hd w \<noteq> CHR ''/'') \<and>
         (drop (Suc pos) w \<noteq> [] \<longleftrightarrow> length (take pos w) + 1 < length w)"
proof -
  from find_char_Some [OF sl]
  have lt: "pos < length w" and at: "w ! pos = CHR ''/''" and before: "CHR ''/'' \<notin> set (take pos w)"
    by simp_all
  have split: "w = take pos w @ CHR ''/'' # drop (Suc pos) w"
    using id_take_nth_drop [OF lt] at by simp
  have hd: "take pos w \<noteq> [] \<longleftrightarrow> hd w \<noteq> CHR ''/''"
  proof (cases pos)
    case 0
    with at lt show ?thesis by (simp add: hd_conv_nth)
  next
    case (Suc k)
    with lt have "hd w \<in> set (take pos w)" by (cases w) auto
    with before Suc lt show ?thesis by auto
  qed
  have tl: "drop (Suc pos) w \<noteq> [] \<longleftrightarrow> length (take pos w) + 1 < length w"
    using lt by auto
  from split before hd tl show ?thesis by blast
qed

text \<open>
  Claim C1, amended.  Every emitted record has its own header line: the record number \<open>k\<close>
  is appended when a description line \<open>d\<close> is consumed (the lines before \<open>d\<close> yield exactly
  the first \<open>k\<close> records), and its header \<open>h\<close> is the last valid header line before \<open>d\<close>,
  with nothing but rejected header lines between the two.  Repository and name of the record
  are the parts of the first word of \<open>h\<close> before and behind that word's first slash, and
  its version is the second word of \<open>h\<close>.  The repository is non-empty exactly when the word
  does not begin with the slash, the name exactly when the first slash is not the last
  character of the word.
\<close>

theorem emitted_record_splits_header_word:
  assumes "k < length (parse_yay_search inp)" and "r = parse_yay_search inp ! k"
  shows "\<exists>before h mid d after repo_name header1 ver header2.
           getlines inp = before @ h # mid @ d # after \<and>
           valid_header h \<and> (\<forall>l\<in>set mid. rejected_header l) \<and> description_line d \<and>
           pkgs (foldl parse_line parser_init (before @ h # mid)) = take k (parse_yay_search inp) \<and>
           extract_word h = Some (repo_name, header1) \<and>
           extract_word header1 = Some (ver, header2) \<and>
           repo_name = repo r @ CHR ''/'' # name r \<and>
           CHR ''/'' \<notin> set (repo r) \<and>
           version r = ver \<and>
           description r =
             (if set d \<subseteq> {CHR '' '', TAB} then d
              else dropWhile (\<lambda>c. c = CHR '' '' \<or> c = TAB) d) \<and>
           (repo r \<noteq> [] \<longleftrightarrow> hd repo_name \<noteq> CHR ''/'') \<and>
           (name r \<noteq> [] \<longleftrightarrow> length (repo r) + 1 < length repo_name)"
proof -
  let ?ls = "getlines inp"
  let ?D = "\<lambda>d. if set d \<subseteq> {CHR '' '', TAB} then d
            else dropWhile (\<lambda>c. c = CHR '' '' \<or> c = TAB) d"
  from assms(1) have "k < length (pkgs (foldl parse_line parser_init ?ls))"
    by (simp add: parse_yay_search_foldl)
  from emitted_record_provenance [OF this] obtain before h mid d after
    where ls: "?ls = before @ h # mid @ d # after" and v: "valid_header h"
      and m: "\<forall>l\<in>set mid. rejected_header l" and d: "description_line d"
      and t0: "pkgs (foldl parse_line parser_init (before @ h # mid)) =
                take k (pkgs (foldl parse_line parser_init ?ls))"
      and c0: "\<forall>st. pkgs (foldl parse_line parser_init ?ls) ! k =
                (current (parse_line st h))\<lparr>description := ?D d\<rparr>"
    by blast
  from t0 have t: "pkgs (foldl parse_line parser_init (before @ h # mid)) =
                take k (parse_yay_search inp)"
    by (simp add: parse_yay_search_foldl)
  from c0 assms(2) have c: "r = (current (parse_line parser_init h))\<lparr>description := ?D d\<rparr>"
    by (simp add: parse_yay_search_foldl)
  from v obtain repo_name header1 ver header2 pos
    where w1: "extract_word h = Some (repo_name, header1)"
      and w2: "extract_word header1 = Some (ver, header2)"
      and sl: "find_char repo_name (CHR ''/'') = Some pos"
    by (auto simp: valid_header_def split: option.splits)
  from parse_line_valid_header_fields [OF v w1 w2 sl, of parser_init] c
  have rr: "repo r = take pos repo_name" and rn: "name r = drop (Suc pos) repo_name"
    and rv: "version r = ver" and rd: "description r = ?D d"
    by simp_all
  from split_at_first_slash [OF sl] rr rn
  have s1: "repo_name = repo r @ CHR ''/'' # name r"
    and s2: "CHR ''/'' \<notin> set (repo r)"
    and s3: "repo r \<noteq> [] \<longleftrightarrow> hd repo_name \<noteq> CHR ''/''"
    and s4: "name r \<noteq> [] \<longleftrightarrow> length (repo r) + 1 < length repo_name"
    by simp_all
  show ?thesis
    by (intro exI conjI)
       (rule ls, rule v, rule m, rule d, rule t, rule w1, rule w2, rule s1, rule s2, rule rv,
        rule rd, rule s3, rule s4)
qed

lemma sample_listing:
  "1 < length (parse_yay_search
     ''x/y 3\<newline> d\<newline>core/foo 1.0-1\<newline>c/d\<newline>    A sample package\<newline>'')"
  "\<lparr>repo = ''core'', name = ''foo'', version = ''1.0-1'', description = ''A sample package'',
     installed = False\<rparr> =
   parse_yay_search
     ''x/y 3\<newline> d\<newline>core/foo 1.0-1\<newline>c/d\<newline>    A sample package\<newline>'' ! 1"
  by code_simp+

theorem emitted_record_splits_header_word_witness:
  "1 < length (parse_yay_search
     ''x/y 3\<newline> d\<newline>core/foo 1.0-1\<newline>c/d\<newline>    A sample package\<newline>'') \<and>
   parse_yay_search
     ''x/y 3\<newline> d\<newline>core/foo 1.0-1\<newline>c/d\<newline>    A sample package\<newline>'' ! 1 =
     \<lparr>repo = ''core'', name = ''foo'', version = ''1.0-1'', description = ''A sample package'',
       installed = False\<rparr> \<and>
   (\<exists>before h mid d after header1 header2.
      getlines ''x/y 3\<newline> d\<newline>core/foo 1.0-1\<newline>c/d\<newline>    A sample package\<newline>'' =
        before @ h # mid @ d # after \<and>
      valid_header h \<and> (\<forall>l\<in>set mid. rejected_header l) \<and> description_line d \<and>
      extract_word h = Some (''core/foo'', header1) \<and>
      extract_word header1 = Some (''1.0-1'', header2) \<and>
      ''A sample package'' =
        (if set d \<subseteq> {CHR '' '', TAB} then d
         else dropWhile (\<lambda>c. c = CHR '' '' \<or> c = TAB) d))"
proof -
  let ?inp = "''x/y 3\<newline> d\<newline>core/foo 1.0-1\<newline>c/d\<newline>    A sample package\<newline>''"
  let ?r = "\<lparr>repo = ''core'', name = ''foo'', version = ''1.0-1'',
              description = ''A sample package'', installed = False\<rparr>"
  from emitted_record_splits_header_word [OF sample_listing]
  obtain before h mid d after repo_name header1 ver header2
    where a: "getlines ?inp = before @ h # mid @ d # after"
      and v: "valid_header h" and m: "\<forall>l\<in>set mid. rejected_header l"
      and dl: "description_line d"
      and w1: "extract_word h = Some (repo_name, header1)"
      and w2: "extract_word header1 = Some (ver, header2)"
      and rn: "repo_name = repo ?r @ CHR ''/'' # name ?r"
      and rv: "version ?r = ver"
      and rd: "description ?r =
                 (if set d \<subseteq> {CHR '' '', TAB} then d
                  else dropWhile (\<lambda>c. c = CHR '' '' \<or> c = TAB) d)"
    by blast
  from w1 rn have w1': "extract_word h = Some (''core/foo'', header1)" by simp
  from w2 rv have w2': "extract_word header1 = Some (''1.0-1'', header2)" by simp
  from rd have rd': "''A sample package'' =
                 (if set d \<subseteq> {CHR '' '', TAB} then d
                  else dropWhile (\<lambda>c. c = CHR '' '' \<or> c = TAB) d)" by simp
  show ?thesis
    by (intro conjI exI)
       (rule sample_listing(1), rule sample_listing(2) [symmetric],
        rule a, rule v, rule m, rule dl, rule w1', rule w2', rule rd')
qed

text \<open>
  Claim C1 as stated fails on both inputs it names: \<^verbatim>\<open>/foo 1.0\<close> is emitted with an
  empty repository and \<^verbatim>\<open>foo/ 1.0\<close> with an empty name.
\<close>

theorem empty_repository_or_name_counterexample:
  "parse_yay_search ''/foo 1.0\<newline> d\<newline>'' =
     [\<lparr>repo = [], name = ''foo'', version = ''1.0'', description = ''d'', installed = False\<rparr>] \<and>
   parse_yay_search ''foo/ 1.0\<newline> d\<newline>'' =
     [\<lparr>repo = ''foo'', name = [], version = ''1.0'', description = ''d'', installed = False\<rparr>]"
  by code_simp

subsection \<open>The sample of the specification\<close>

text \<open>
  Claim C5.  On the four-line sample of the specification the parser returns exactly two
  records, in order: core/foo 1.0-1 "A sample package" with the provisional flag unset,
  then extra/bar 2.0-1 "Another package" with the provisional flag set.
\<close>

theorem parse_yay_search_two_record_sample:
  "parse_yay_search
     ''core/foo 1.0-1\<newline>    A sample package\<newline>extra/bar 2.0-1 [installed]\<newline>    Another package\<newline>'' =
   [\<lparr>repo = ''core'', name = ''foo'', version = ''1.0-1'',
      description = ''A sample package'', installed = False\<rparr>,
    \<lparr>repo = ''extra'', name = ''bar'', version = ''2.0-1'',
      description = ''Another package'', installed = True\<rparr>]"
  by code_simp

section \<open>Properties of the process runner and the search pipeline\<close>

lemma run_command_trace:
  "snd (run_command w cmd tr) =
     tr @ Popen (c_str cmd) ''r'' # (if popen_ok w (tr @ [Popen (c_str cmd) ''r'']) then [Pclose] else [])"
  by (simp add: run_command_def Let_def)

lemma run_command_status_trace:
  "\<exists>tr'. snd (run_command_status w cmd tr) = tr @ tr'"
  by (simp add: run_command_status_def Let_def)

lemma resolve_installed_trace: "\<exists>tr'. snd (resolve_installed w ps tr) = tr @ tr'"
proof (induction ps arbitrary: tr)
  case Nil
  show ?case by simp
next
  case (Cons pkg ps)
  obtain b tr1 where c: "is_package_installed w (name pkg) tr = (b, tr1)"
    by (cases "is_package_installed w (name pkg) tr")
  from run_command_status_trace [of w _ tr] c obtain t1 where t1: "tr1 = tr @ t1"
    unfolding is_package_installed_def by (metis snd_conv)
  from Cons.IH [of tr1] obtain t2 where "snd (resolve_installed w ps tr1) = tr1 @ t2" by blast
  with c t1 show ?case by (simp add: split_beta)
qed

lemma resolve_installed_length: "length (fst (resolve_installed w ps tr)) = length ps"
  by (induction ps arbitrary: tr) (simp_all add: split_beta Let_def)

lemma resolve_installed_nth:
  "i < length ps \<Longrightarrow>
   fst (resolve_installed w ps tr) ! i =
     (ps ! i)\<lparr>installed :=
        fst (is_package_installed w (name (ps ! i)) (snd (resolve_installed w (take i ps) tr)))\<rparr>"
proof (induction ps arbitrary: tr i)
  case Nil
  then show ?case by simp
next
  case (Cons pkg ps)
  show ?case
  proof (cases i)
    case 0
    then show ?thesis by (simp add: split_beta Let_def)
  next
    case (Suc k)
    with Cons.prems have "k < length ps" by simp
    from Cons.IH [OF this] Suc show ?thesis by (simp add: split_beta Let_def)
  qed
qed

lemma sample_run:
  "run_command world_sample (''yay -Ss '' @ ''bar'') [] =
     (sample_yay_output, [Popen ''yay -Ss bar'' ''r'', Pclose])"
  by code_simp

lemma sample_parsed:
  "[\<lparr>repo = ''extra'', name = ''bar'', version = ''2.0-1'',
      description = ''Another package'', installed = True\<rparr>] =
   parse_yay_search (strip_ansi_and_osc sample_yay_output)"
  by code_simp

lemma sample_answer:
  "is_package_installed world_sample ''bar'' [Popen ''yay -Ss bar'' ''r'', Pclose] =
     (False, [Popen ''yay -Ss bar'' ''r'', Pclose,
              Popen ''pacman -Qi bar >/dev/null 2>&1'' ''r'', Pclose])"
  by code_simp

text \<open>
  Claim C8.  When \<^verbatim>\<open>popen\<close> returns no pipe, \<^verbatim>\<open>run_command\<close> returns the empty
  text and \<^verbatim>\<open>run_command_status\<close> returns false; neither reads nor reaps anything.
\<close>

theorem spawn_failure_is_soft:
  assumes "\<not> popen_ok w (tr @ [Popen (c_str cmd) ''r''])"
  shows "run_command w cmd tr = ([], tr @ [Popen (c_str cmd) ''r'']) \<and>
         run_command_status w cmd tr = (False, tr @ [Popen (c_str cmd) ''r''])"
  using assms by (simp add: run_command_def run_command_status_def Let_def)

theorem spawn_failure_is_soft_witness:
  "\<not> popen_ok world_spawn_fails ([] @ [Popen (c_str ''yay -Ss bar'') ''r'']) \<and>
   run_command world_spawn_fails ''yay -Ss bar'' [] = ([], [Popen ''yay -Ss bar'' ''r'']) \<and>
   run_command_status world_spawn_fails ''yay -Ss bar'' [] = (False, [Popen ''yay -Ss bar'' ''r''])"
  using spawn_failure_is_soft [of world_spawn_fails "[]" "''yay -Ss bar''"]
  by (simp add: world_spawn_fails_def c_str_def NUL_def)

text \<open>
  Claim C10.  With the empty password \<^verbatim>\<open>run_sudo_with_password\<close> returns false and
  leaves the trace as it is: no \<^verbatim>\<open>popen\<close>, no \<^verbatim>\<open>fwrite\<close>.
\<close>

theorem empty_password_spawns_nothing:
  "run_sudo_with_password w [] cmd tr = (False, tr)"
  by (simp add: run_sudo_with_password_def)

text \<open>
  Claim C2, amended.  For the empty query \<^verbatim>\<open>perform_search\<close> shows no record and
  leaves the trace as it is: no subprocess is created.  Every non-empty query, one of white
  space only included, starts the search command \<^verbatim>\<open>yay -Ss\<close> with the query appended.
\<close>

theorem empty_query_invokes_nothing:
  "perform_search w [] tr = ([], tr) \<and>
   (query \<noteq> [] \<longrightarrow>
      (\<exists>tr'. snd (perform_search w query tr) =
                tr @ Popen (c_str (''yay -Ss '' @ query)) ''r'' # tr'))"
proof -
  have e: "perform_search w [] tr = ([], tr)" by (simp add: perform_search_def)
  have "\<exists>tr'. snd (perform_search w query tr) =
                tr @ Popen (c_str (''yay -Ss '' @ query)) ''r'' # tr'" if ne: "query \<noteq> []"
  proof -
    obtain raw tr1 where rc: "run_command w (''yay -Ss '' @ query) tr = (raw, tr1)"
      by (cases "run_command w (''yay -Ss '' @ query) tr")
    from run_command_trace [of w "''yay -Ss '' @ query" tr] rc
    obtain t1 where t1: "tr1 = tr @ Popen (c_str (''yay -Ss '' @ query)) ''r'' # t1" by simp
    from resolve_installed_trace [of w "parse_yay_search (strip_ansi_and_osc raw)" tr1]
    obtain t2 where "snd (resolve_installed w (parse_yay_search (strip_ansi_and_osc raw)) tr1) = tr1 @ t2"
      by blast
    with ne rc t1 show ?thesis by (simp add: perform_search_def Let_def)
  qed
  with e show ?thesis by blast
qed

theorem empty_query_invokes_nothing_witness:
  "''bar'' \<noteq> [] \<and> perform_search world_sample [] [] = ([], []) \<and>
   (\<exists>tr'. snd (perform_search world_sample ''bar'' []) = Popen ''yay -Ss bar'' ''r'' # tr')"
  using empty_query_invokes_nothing [of world_sample "[]" "''bar''"]
  by (simp add: c_str_def NUL_def)

text \<open>
  Claim C2 as stated fails: for the query of one space the search command is started
  (the guard is \<^verbatim>\<open>query.empty()\<close>, and nothing trims the query).
\<close>

theorem whitespace_query_spawns_search_counterexample:
  "isspace (CHR '' '') \<and>
   perform_search world_sample '' '' [] = ([], [Popen ''yay -Ss  '' ''r'', Pclose])"
  by code_simp

text \<open>
  Claim C6.  For a non-empty query, the sequence \<^verbatim>\<open>perform_search\<close> shows has one
  record per parsed record, and the record at each position is the parsed one with
  \<open>installed\<close> replaced by the answer \<^verbatim>\<open>is_package_installed\<close> gives for its name when
  the loop reaches it, whatever the provisional flag was: false when the answer is false,
  true when it is true.
\<close>

theorem resolver_answer_overwrites_provisional_flag:
  assumes "query \<noteq> []"
    and "run_command w (''yay -Ss '' @ query) tr = (raw_output, tr1)"
    and "parsed = parse_yay_search (strip_ansi_and_osc raw_output)"
    and "i < length parsed"
    and "is_package_installed w (name (parsed ! i))
           (snd (resolve_installed w (take i parsed) tr1)) = (answer, tr2)"
  shows "length (fst (perform_search w query tr)) = length parsed \<and>
         fst (perform_search w query tr) ! i = (parsed ! i)\<lparr>installed := answer\<rparr>"
proof -
  from assms(1,2,3) have ps: "perform_search w query tr = resolve_installed w parsed tr1"
    by (simp add: perform_search_def Let_def)
  from resolve_installed_nth [OF assms(4), of w tr1] assms(5)
  have "fst (resolve_installed w parsed tr1) ! i = (parsed ! i)\<lparr>installed := answer\<rparr>"
    by simp
  with ps resolve_installed_length [of w parsed tr1] show ?thesis by simp
qed

theorem resolver_answer_overwrites_provisional_flag_witness:
  "parse_yay_search (strip_ansi_and_osc (fst (run_command world_sample ''yay -Ss bar'' []))) =
     [\<lparr>repo = ''extra'', name = ''bar'', version = ''2.0-1'',
        description = ''Another package'', installed = True\<rparr>] \<and>
   fst (is_package_installed world_sample ''bar'' [Popen ''yay -Ss bar'' ''r'', Pclose]) = False \<and>
   fst (perform_search world_sample ''bar'' []) ! 0 =
     \<lparr>repo = ''extra'', name = ''bar'', version = ''2.0-1'',
       description = ''Another package'', installed = False\<rparr>"
  using resolver_answer_overwrites_provisional_flag
          [of "''bar''" world_sample "[]" sample_yay_output "[Popen ''yay -Ss bar'' ''r'', Pclose]"
              "[\<lparr>repo = ''extra'', name = ''bar'', version = ''2.0-1'',
                  description = ''Another package'', installed = True\<rparr>]" 0 False
              "[Popen ''yay -Ss bar'' ''r'', Pclose,
                Popen ''pacman -Qi bar >/dev/null 2>&1'' ''r'', Pclose]",
           OF _ sample_run sample_parsed]
        sample_run sample_parsed [symmetric] sample_answer
  by simp

end
